theory Spec2Isabelle
  imports Main
begin

section \<open>Python values\<close>

text \<open>
  A Python \<open>str\<close> is a sequence of Unicode code points; the patterns and texts of the
  checker are Chinese, so a string is modelled as the list of its code points
  (\<open>len\<close> is \<open>length\<close>, slicing is \<open>take\<close>/\<open>drop\<close>), each code point the integer
  that \<open>ord\<close> gives.
\<close>

type_synonym pystr = "int list"

text \<open>
  The values that reach the checker and the configuration: \<open>None\<close>, booleans, integers,
  strings, lists and dictionaries with string keys (what \<open>json.load\<close> produces, floats
  apart). A dictionary keeps its insertion order, so it is an association list.
\<close>

datatype pyval =
    PNone
  | PBool bool
  | PInt int
  | PStr pystr
  | PList "pyval list"
  | PDict "(pystr \<times> pyval) list"

datatype py_error =
    ReError          \<comment> \<open>\<open>re.error\<close>: the pattern does not compile\<close>
  | IndexError       \<comment> \<open>\<open>match.group(k)\<close> with no such group\<close>
  | ValueError       \<comment> \<open>\<open>int(s)\<close> on a string that is not an integer literal\<close>
  | TypeError
  | AttributeError

text \<open>Truth value testing (\<open>not x\<close>, \<open>if x:\<close>).\<close>

fun truthy :: "pyval \<Rightarrow> bool" where
  "truthy PNone = False"
| "truthy (PBool b) = b"
| "truthy (PInt i) = (i \<noteq> 0)"
| "truthy (PStr s) = (s \<noteq> [])"
| "truthy (PList xs) = (xs \<noteq> [])"
| "truthy (PDict d) = (d \<noteq> [])"

text \<open>\<open>isinstance(x, str)\<close>.\<close>

fun is_str :: "pyval \<Rightarrow> bool" where
  "is_str (PStr s) = True"
| "is_str _ = False"

section \<open>The regular expressions of module \<open>re\<close>\<close>

text \<open>
  \<open>check_text\<close> hands every pattern to \<open>re.compile\<close> and calls \<open>finditer\<close> on the
  text. The model covers the fragment of the pattern language that the configured
  patterns are written in: literal characters, \<open>\d\<close>, \<open>\s\<close>, escaped punctuation,
  character sets \<open>[...]\<close> of literal members, capturing groups, and the greedy
  quantifiers \<open>?\<close>, \<open>*\<close>, \<open>+\<close>, \<open>{m}\<close>, \<open>{m,n}\<close>. A pattern outside the fragment
  is not compiled by the model.
\<close>

datatype cclass =
    CLit int             \<comment> \<open>one literal code point\<close>
  | CDigit               \<comment> \<open>\<open>\d\<close>\<close>
  | CSpace               \<comment> \<open>\<open>\s\<close>\<close>
  | CSet "int list"      \<comment> \<open>\<open>[...]\<close>\<close>

datatype regex =
    REmpty
  | RAtom cclass
  | RSeq regex regex
  | RGroup nat regex                   \<comment> \<open>capturing group with its number\<close>
  | RRep nat "nat option" regex        \<comment> \<open>greedy repetition, at least and at most\<close>

definition is_digit :: "int \<Rightarrow> bool" where
  "is_digit c = (48 \<le> c \<and> c \<le> 57)"

text \<open>The white space of \<open>str.isspace\<close>, which \<open>\s\<close> matches in a \<open>str\<close> pattern.\<close>

definition is_space :: "int \<Rightarrow> bool" where
  "is_space c = ((9 \<le> c \<and> c \<le> 13) \<or> (28 \<le> c \<and> c \<le> 32) \<or> c = 133 \<or> c = 160
      \<or> c = 5760 \<or> (8192 \<le> c \<and> c \<le> 8202) \<or> c = 8232 \<or> c = 8233
      \<or> c = 8239 \<or> c = 8287 \<or> c = 12288)"

fun cclass_matches :: "cclass \<Rightarrow> int \<Rightarrow> bool" where
  "cclass_matches (CLit a) c = (c = a)"
| "cclass_matches CDigit c = is_digit c"
| "cclass_matches CSpace c = is_space c"
| "cclass_matches (CSet as) c = (c \<in> set as)"

subsection \<open>Matching at a position\<close>

text \<open>
  A backtracking matcher tries the alternatives of a pattern in a fixed order of
  preference and succeeds with the first one that completes. The model returns all
  completions in that order: a state is the text still to be read and the groups
  captured so far (latest binding first).
\<close>

type_synonym captures = "(nat \<times> pystr) list"
type_synonym mstate = "pystr \<times> captures"

primrec rep_exact :: "(mstate \<Rightarrow> mstate list) \<Rightarrow> nat \<Rightarrow> mstate \<Rightarrow> mstate list" where
  "rep_exact m 0 st = [st]"
| "rep_exact m (Suc n) st = concat (map (rep_exact m n) (m st))"

text \<open>Greedy: one more round is preferred to stopping.\<close>

primrec rep_upto :: "(mstate \<Rightarrow> mstate list) \<Rightarrow> nat \<Rightarrow> mstate \<Rightarrow> mstate list" where
  "rep_upto m 0 st = [st]"
| "rep_upto m (Suc n) st = concat (map (rep_upto m n) (m st)) @ [st]"

text \<open>
  An unbounded repetition never needs more rounds than there are characters left:
  the parser admits \<open>*\<close> and \<open>+\<close> on single characters only, and each round reads one.
\<close>

primrec rmatch :: "regex \<Rightarrow> mstate \<Rightarrow> mstate list" where
  "rmatch REmpty = (\<lambda>st. [st])"
| "rmatch (RAtom k) = (\<lambda>st. case fst st of
       [] \<Rightarrow> []
     | c # cs \<Rightarrow> if cclass_matches k c then [(cs, snd st)] else [])"
| "rmatch (RSeq r1 r2) = (\<lambda>st. concat (map (rmatch r2) (rmatch r1 st)))"
| "rmatch (RGroup n r) = (\<lambda>st. map (\<lambda>st'.
       (fst st', (n, take (length (fst st) - length (fst st')) (fst st)) # snd st'))
       (rmatch r st))"
| "rmatch (RRep lo hi r) = (\<lambda>st. concat (map
       (rep_upto (rmatch r) (case hi of None \<Rightarrow> length (fst st) | Some h \<Rightarrow> h - lo))
       (rep_exact (rmatch r) lo st)))"

subsection \<open>Compiling a pattern\<close>

text \<open>
  A compiled pattern is its syntax tree and the number of its groups. The parser is a
  recursive descent over the pattern string; the fuel bounds the depth of the descent
  and \<open>re_compile\<close> gives it more than any pattern string needs. Code points:
  \<open>(\<close> 40, \<open>)\<close> 41, \<open>*\<close> 42, \<open>+\<close> 43, \<open>,\<close> 44, \<open>-\<close> 45, \<open>?\<close> 63, \<open>[\<close> 91,
  backslash 92, \<open>]\<close> 93, \<open>^\<close> 94, \<open>d\<close> 100, \<open>s\<close> 115, \<open>{\<close> 123, \<open>}\<close> 125.
\<close>

record compiled =
  c_regex :: regex
  c_groups :: nat

definition metachars :: "int list" where
  "metachars = [36, 40, 41, 42, 43, 46, 63, 91, 92, 93, 94, 123, 124, 125]"

definition parse_nat :: "pystr \<Rightarrow> nat" where
  "parse_nat ds = foldl (\<lambda>a c. 10 * a + nat (c - 48)) 0 ds"

text \<open>
  The quantifier after an item, if there is one: \<open>None\<close> is a form outside the
  fragment, \<open>Some (None, rest)\<close> is no quantifier.
\<close>

definition parse_braces :: "pystr \<Rightarrow> ((nat \<times> nat option) option \<times> pystr) option" where
  "parse_braces s =
     (let ds = takeWhile is_digit s; s1 = dropWhile is_digit s in
      if ds = [] then None
      else case s1 of
        [] \<Rightarrow> None
      | c # s2 \<Rightarrow>
          if c = 125 then Some (Some (parse_nat ds, Some (parse_nat ds)), s2)
          else if c = 44 then
            (let es = takeWhile is_digit s2; s3 = dropWhile is_digit s2 in
             case s3 of
               [] \<Rightarrow> None
             | c' # s4 \<Rightarrow>
                 if c' \<noteq> 125 then None
                 else if es = [] then Some (Some (parse_nat ds, None), s4)
                 else if parse_nat es < parse_nat ds then None
                 else Some (Some (parse_nat ds, Some (parse_nat es)), s4))
          else None)"

definition parse_quant :: "pystr \<Rightarrow> ((nat \<times> nat option) option \<times> pystr) option" where
  "parse_quant s =
     (case s of
        [] \<Rightarrow> Some (None, [])
      | c # cs \<Rightarrow>
          (let q = (if c = 63 then Some (Some (0, Some 1), cs)
                    else if c = 42 then Some (Some (0, None), cs)
                    else if c = 43 then Some (Some (1, None), cs)
                    else if c = 123 then parse_braces cs
                    else Some (None, s))
           in case q of
                Some (Some b, c' # rest) \<Rightarrow>
                  if c' \<in> set [42, 43, 63, 123] then None else q
              | _ \<Rightarrow> q))"

fun is_atom :: "regex \<Rightarrow> bool" where
  "is_atom (RAtom k) = True"
| "is_atom _ = False"

definition apply_quant :: "(nat \<times> nat option) option \<Rightarrow> regex \<Rightarrow> regex option" where
  "apply_quant q a =
     (case q of
        None \<Rightarrow> Some a
      | Some (lo, None) \<Rightarrow> if is_atom a then Some (RRep lo None a) else None
      | Some (lo, Some hi) \<Rightarrow> Some (RRep lo (Some hi) a))"

definition parse_set :: "pystr \<Rightarrow> (regex \<times> pystr) option" where
  "parse_set s =
     (let ms = takeWhile (\<lambda>c. c \<noteq> 93) s; rest = dropWhile (\<lambda>c. c \<noteq> 93) s in
      if ms = [] \<or> rest = [] \<or> (\<exists>c \<in> set ms. c \<in> set [45, 91, 92, 94]) then None
      else Some (RAtom (CSet ms), tl rest))"

definition parse_escape :: "pystr \<Rightarrow> (regex \<times> pystr) option" where
  "parse_escape s =
     (case s of
        [] \<Rightarrow> None
      | e # rest \<Rightarrow>
          if e = 100 then Some (RAtom CDigit, rest)
          else if e = 115 then Some (RAtom CSpace, rest)
          else if e \<in> set metachars then Some (RAtom (CLit e), rest)
          else None)"

fun parse_seq :: "nat \<Rightarrow> pystr \<Rightarrow> nat \<Rightarrow> (regex \<times> pystr \<times> nat) option"
and parse_atom :: "nat \<Rightarrow> pystr \<Rightarrow> nat \<Rightarrow> (regex \<times> pystr \<times> nat) option" where
  "parse_seq 0 s n = None"
| "parse_seq (Suc f) s n =
     (case s of
        [] \<Rightarrow> Some (REmpty, [], n)
      | c # cs \<Rightarrow>
          if c = 41 then Some (REmpty, s, n)
          else case parse_atom f s n of
            None \<Rightarrow> None
          | Some (a, s1, n1) \<Rightarrow>
              (case parse_quant s1 of
                 None \<Rightarrow> None
               | Some (q, s2) \<Rightarrow>
                   (case apply_quant q a of
                      None \<Rightarrow> None
                    | Some item \<Rightarrow>
                        (case parse_seq f s2 n1 of
                           None \<Rightarrow> None
                         | Some (r, s3, n3) \<Rightarrow> Some (RSeq item r, s3, n3)))))"
| "parse_atom 0 s n = None"
| "parse_atom (Suc f) s n =
     (case s of
        [] \<Rightarrow> None
      | c # cs \<Rightarrow>
          if c = 40 then
            (case parse_seq f cs (Suc n) of
               None \<Rightarrow> None
             | Some (r, s1, n1) \<Rightarrow>
                 (case s1 of
                    [] \<Rightarrow> None
                  | c' # s2 \<Rightarrow> if c' = 41 then Some (RGroup n r, s2, n1) else None))
          else if c = 92 then
            (case parse_escape cs of None \<Rightarrow> None | Some (a, s1) \<Rightarrow> Some (a, s1, n))
          else if c = 91 then
            (case parse_set cs of None \<Rightarrow> None | Some (a, s1) \<Rightarrow> Some (a, s1, n))
          else if c \<in> set metachars then None
          else Some (RAtom (CLit c), cs, n))"

definition re_compile :: "pystr \<Rightarrow> py_error + compiled" where
  "re_compile p =
     (case parse_seq (2 * length p + 2) p 1 of
        None \<Rightarrow> Inl ReError
      | Some (r, rest, n) \<Rightarrow>
          if rest = [] then Inr \<lparr>c_regex = r, c_groups = n - 1\<rparr> else Inl ReError)"

subsection \<open>Match objects and \<open>finditer\<close>\<close>

record match_obj =
  m_string :: pystr
  m_start :: nat
  m_end :: nat
  m_caps :: captures
  m_ngroups :: nat

text \<open>
  \<open>match.group(k)\<close>: group 0 is the matched substring, a group that took no part in the
  match is \<open>None\<close>, a number beyond the pattern's groups raises \<open>IndexError\<close>.
\<close>

definition match_group :: "match_obj \<Rightarrow> nat \<Rightarrow> py_error + pyval" where
  "match_group m k =
     (if k = 0 then Inr (PStr (take (m_end m - m_start m) (drop (m_start m) (m_string m))))
      else if k \<le> m_ngroups m then
        Inr (case map_of (m_caps m) k of None \<Rightarrow> PNone | Some g \<Rightarrow> PStr g)
      else Inl IndexError)"

text \<open>
  The first completion at \<open>pos\<close>; with \<open>adv\<close> (the previous match was empty and ended
  here) an empty completion does not count.
\<close>

definition match_at :: "compiled \<Rightarrow> pystr \<Rightarrow> nat \<Rightarrow> bool \<Rightarrow> match_obj option" where
  "match_at c t pos adv =
     (case filter (\<lambda>st. \<not> adv \<or> length (fst st) < length (drop pos t))
             (rmatch (c_regex c) (drop pos t, [])) of
        [] \<Rightarrow> None
      | st # _ \<Rightarrow> Some \<lparr>m_string = t, m_start = pos,
                        m_end = pos + (length (drop pos t) - length (fst st)),
                        m_caps = snd st, m_ngroups = c_groups c\<rparr>)"

text \<open>
  The scan of \<open>finditer\<close>: the leftmost position with a match, then on from the end of
  that match.
\<close>

function re_scan :: "compiled \<Rightarrow> pystr \<Rightarrow> nat \<Rightarrow> bool \<Rightarrow> match_obj list" where
  "re_scan c t pos adv =
     (if length t < pos then []
      else case match_at c t pos adv of
        None \<Rightarrow> re_scan c t (Suc pos) False
      | Some m \<Rightarrow> m # re_scan c t (m_end m) (m_end m = pos))"
  by pat_completeness auto
termination
proof (relation "measure (\<lambda>(c, t, pos, adv). 2 * (Suc (length t) - pos) + (if adv then 0 else 1))")
  show "wf (measure (\<lambda>(c, t, pos, adv). 2 * (Suc (length t) - pos) + (if adv then 0 else 1)))"
    by simp
next
  fix c :: compiled and t :: pystr and pos :: nat and adv :: bool
  assume "\<not> length t < pos"
  then show "((c, t, Suc pos, False), (c, t, pos, adv))
      \<in> measure (\<lambda>(c, t, pos, adv). 2 * (Suc (length t) - pos) + (if adv then 0 else 1))"
    by auto
next
  fix c :: compiled and t :: pystr and pos :: nat and adv :: bool and m :: match_obj
  assume le: "\<not> length t < pos" and m: "match_at c t pos adv = Some m"
  define ok where "ok = (\<lambda>st :: mstate. \<not> adv \<or> length (fst st) < length (drop pos t))"
  from m obtain st sts where
    f: "filter ok (rmatch (c_regex c) (drop pos t, [])) = st # sts"
    and e: "m_end m = pos + (length (drop pos t) - length (fst st))"
    unfolding match_at_def ok_def by (auto split: list.splits)
  have "st \<in> set (filter ok (rmatch (c_regex c) (drop pos t, [])))"
    unfolding f by simp
  then have ok: "ok st" by simp
  from e le have "m_end m \<le> length t" by simp
  moreover from e have "pos \<le> m_end m" by simp
  moreover from e ok have "adv \<Longrightarrow> pos < m_end m" unfolding ok_def by auto
  ultimately show "((c, t, m_end m, m_end m = pos), (c, t, pos, adv))
      \<in> measure (\<lambda>(c, t, pos, adv). 2 * (Suc (length t) - pos) + (if adv then 0 else 1))"
    using le by (cases adv) auto
qed

definition re_finditer :: "compiled \<Rightarrow> pystr \<Rightarrow> match_obj list" where
  "re_finditer c t = re_scan c t 0 False"

section \<open>The checker (\<open>kpi_checker.py\<close>)\<close>

text \<open>
  The dictionary that \<open>check_text\<close> returns has the same five keys on every path; it is
  a record whose fields hold Python values (\<open>PNone\<close> is \<open>None\<close>).
\<close>

record verdict =
  has_kpi_statement :: bool
  score :: pyval
  matching_pattern :: pyval
  match_text :: pyval
  year :: pyval

definition no_statement :: verdict where
  "no_statement = \<lparr>has_kpi_statement = False, score = PNone, matching_pattern = PNone,
     match_text = PNone, year = PNone\<rparr>"

text \<open>\<open>[re.compile(pattern) for pattern in self.patterns]\<close>: the first failure raises.\<close>

fun compile_all :: "pystr list \<Rightarrow> py_error + compiled list" where
  "compile_all [] = Inr []"
| "compile_all (p # ps) =
     (case re_compile p of
        Inl e \<Rightarrow> Inl e
      | Inr c \<Rightarrow> (case compile_all ps of Inl e \<Rightarrow> Inl e | Inr cs \<Rightarrow> Inr (c # cs)))"

text \<open>
  The body of the inner loop, which returns at the first match \<open>m\<close> of pattern \<open>i\<close>:
  pattern 0 gives year (group 1) and score (group 2), every other pattern gives the
  score (group 1). The groups are stored as \<open>match.group\<close> returns them.
\<close>

definition match_result :: "pystr list \<Rightarrow> nat \<Rightarrow> match_obj \<Rightarrow> py_error + verdict" where
  "match_result patterns i m =
     (case match_group m 0 of
        Inl e \<Rightarrow> Inl e
      | Inr mt \<Rightarrow>
          if i = 0 then
            (case match_group m 1 of
               Inl e \<Rightarrow> Inl e
             | Inr y \<Rightarrow>
                 (case match_group m 2 of
                    Inl e \<Rightarrow> Inl e
                  | Inr s \<Rightarrow> Inr \<lparr>has_kpi_statement = True, score = s,
                       matching_pattern = PStr (patterns ! i), match_text = mt, year = y\<rparr>))
          else
            (case match_group m 1 of
               Inl e \<Rightarrow> Inl e
             | Inr s \<Rightarrow> Inr \<lparr>has_kpi_statement = True, score = s,
                  matching_pattern = PStr (patterns ! i), match_text = mt, year = PNone\<rparr>))"

text \<open>
  The outer loop \<open>for i, pattern in enumerate(compiled_patterns)\<close>, from index \<open>i\<close> on;
  a pattern without a match passes on to the next one.
\<close>

fun check_patterns :: "pystr list \<Rightarrow> nat \<Rightarrow> compiled list \<Rightarrow> pystr \<Rightarrow> py_error + verdict" where
  "check_patterns patterns i [] t = Inr no_statement"
| "check_patterns patterns i (c # cs) t =
     (case re_finditer c t of
        [] \<Rightarrow> check_patterns patterns (Suc i) cs t
      | m # ms \<Rightarrow> match_result patterns i m)"

definition check_text :: "pystr list \<Rightarrow> pyval \<Rightarrow> py_error + verdict" where
  "check_text patterns content =
     (if \<not> truthy content \<or> \<not> is_str content then Inr no_statement
      else case content of
        PStr t \<Rightarrow>
          (case compile_all patterns of
             Inl e \<Rightarrow> Inl e
           | Inr cs \<Rightarrow> check_patterns patterns 0 cs t)
      | _ \<Rightarrow> Inr no_statement)"


subsection \<open>The default patterns of \<open>config.py\<close>\<close>

text \<open>\<^verbatim>\<open>(\d{4})U+5E74 ?U+7B2C ?[U+4E00 U+4E8C U+4E09 U+56DB ]U+5B63 U+5EA6 KPIU+8003 U+6838 U+81EA U+8BC4 (\d{1,3})U+5206 \<close>\<close>

definition pattern0 :: pystr where
  "pattern0 =
     [40, 92, 100, 123, 52, 125, 41, 24180, 63, 31532, 63, 91, 19968, 20108, 19977, 22235,
     93, 23395, 24230, 75, 80, 73, 32771, 26680, 33258, 35780, 40, 92, 100, 123, 49, 44,
     51, 125, 41, 20998]"

text \<open>\<^verbatim>\<open>U+5B63 U+5EA6 KPIU+8003 U+6838 U+81EA U+8BC4 (\d{1,3})U+5206 \<close>\<close>

definition pattern1 :: pystr where
  "pattern1 =
     [23395, 24230, 75, 80, 73, 32771, 26680, 33258, 35780, 40, 92, 100, 123, 49, 44, 51,
     125, 41, 20998]"

text \<open>\<^verbatim>\<open>KPI\s*U+81EA U+8BC4 U+5F97 U+5206 \s*(\d{1,3})\s*U+5206 \<close>\<close>

definition pattern2 :: pystr where
  "pattern2 =
     [75, 80, 73, 92, 115, 42, 33258, 35780, 24471, 20998, 92, 115, 42, 40, 92, 100, 123,
     49, 44, 51, 125, 41, 92, 115, 42, 20998]"

text \<open>\<^verbatim>\<open>U+81EA U+8BC4 U+5F97 U+5206 \s*(\d{1,3})\s*U+5206 \<close>\<close>

definition pattern3 :: pystr where
  "pattern3 =
     [33258, 35780, 24471, 20998, 92, 115, 42, 40, 92, 100, 123, 49, 44, 51, 125, 41, 92,
     115, 42, 20998]"

text \<open>\<^verbatim>\<open>KPIU+8003 U+6838 U+81EA U+8BC4 (\d{1,3})U+5206 \<close>\<close>

definition pattern4 :: pystr where
  "pattern4 =
     [75, 80, 73, 32771, 26680, 33258, 35780, 40, 92, 100, 123, 49, 44, 51, 125, 41, 20998]"

definition default_patterns :: "pystr list" where
  "default_patterns = [pattern0, pattern1, pattern2, pattern3, pattern4]"

subsection \<open>\<open>analyze_results\<close>\<close>

text \<open>
  \<open>int(x)\<close>: an integer is itself, a boolean is 0 or 1, a string is stripped of white
  space and read as an optional sign and decimal digits, single underscores between
  digits allowed; anything else raises. The decimal digits of the model are the ASCII
  ones, in \<open>\d\<close> and in \<open>int\<close> alike (Python counts the decimal digits of other scripts
  too, in both).
\<close>

text \<open>
  The white space that \<open>int\<close> strips: that of \<open>str.isspace\<close> without the four
  separators 28 to 31, which \<open>int\<close> leaves in place.
\<close>

definition int_space :: "int \<Rightarrow> bool" where
  "int_space c = (is_space c \<and> (c < 28 \<or> 31 < c))"

definition strip :: "pystr \<Rightarrow> pystr" where
  "strip s = rev (dropWhile int_space (rev (dropWhile int_space s)))"

fun digits_ok :: "pystr \<Rightarrow> bool" where
  "digits_ok [] = False"
| "digits_ok [c] = is_digit c"
| "digits_ok (c # d # r) = (is_digit c \<and> (if d = 95 then digits_ok r else digits_ok (d # r)))"

definition digits_value :: "pystr \<Rightarrow> int" where
  "digits_value ds = foldl (\<lambda>a c. 10 * a + (c - 48)) 0 (filter is_digit ds)"

definition int_of_str :: "pystr \<Rightarrow> py_error + int" where
  "int_of_str s =
     (let t = strip s;
          body = (case t of [] \<Rightarrow> [] | c # r \<Rightarrow> if c = 45 \<or> c = 43 then r else t);
          negative = (case t of [] \<Rightarrow> False | c # r \<Rightarrow> c = 45)
      in if digits_ok body
         then Inr (if negative then - digits_value body else digits_value body)
         else Inl ValueError)"

fun py_int :: "pyval \<Rightarrow> py_error + int" where
  "py_int (PInt i) = Inr i"
| "py_int (PBool b) = Inr (if b then 1 else 0)"
| "py_int (PStr s) = int_of_str s"
| "py_int PNone = Inl TypeError"
| "py_int (PList xs) = Inl TypeError"
| "py_int (PDict d) = Inl TypeError"







section \<open>The configuration (\<open>config.py\<close>)\<close>

text \<open>
  \<open>self.config\<close> is a dictionary from strings to values. \<open>self.default_config\<close> is
  never read after \<open>__init__\<close>, so the sharing that the shallow \<open>copy()\<close> leaves between
  the two is not observable and the model keeps \<open>self.config\<close> alone.
\<close>

type_synonym pydict = "(pystr \<times> pyval) list"

definition dict_get :: "pydict \<Rightarrow> pystr \<Rightarrow> pyval option" where
  "dict_get d k = map_of d k"

text \<open>\<open>d[k] = v\<close>: an existing key keeps its place, a new key goes to the end.\<close>

fun dict_set :: "pydict \<Rightarrow> pystr \<Rightarrow> pyval \<Rightarrow> pydict" where
  "dict_set [] k v = [(k, v)]"
| "dict_set ((k', v') # d) k v = (if k' = k then (k, v) # d else (k', v') # dict_set d k v)"

text \<open>\<open>d.update(other)\<close>\<close>

definition dict_update :: "pydict \<Rightarrow> pydict \<Rightarrow> pydict" where
  "dict_update d other = foldl (\<lambda>acc kv. dict_set acc (fst kv) (snd kv)) d other"

text \<open>\<^verbatim>\<open>kpi_patterns\<close>\<close>

definition key_kpi_patterns :: pystr where
  "key_kpi_patterns =
     [107, 112, 105, 95, 112, 97, 116, 116, 101, 114, 110, 115]"

text \<open>\<^verbatim>\<open>check_last_paragraphs\<close>\<close>

definition key_check_last_paragraphs :: pystr where
  "key_check_last_paragraphs =
     [99, 104, 101, 99, 107, 95, 108, 97, 115, 116, 95, 112, 97, 114, 97, 103, 114, 97,
     112, 104, 115]"

text \<open>\<^verbatim>\<open>report\<close>\<close>

definition key_report :: pystr where
  "key_report =
     [114, 101, 112, 111, 114, 116]"

text \<open>\<^verbatim>\<open>fixer\<close>\<close>

definition key_fixer :: pystr where
  "key_fixer =
     [102, 105, 120, 101, 114]"

text \<open>
  The report and fixer settings of the default configuration: \<open>default_format\<close>,
  \<open>excel_filename\<close>, \<open>txt_filename\<close>; \<open>enabled\<close>, \<open>template\<close>.
\<close>

definition default_report :: pydict where
  "default_report =
     [([100, 101, 102, 97, 117, 108, 116, 95, 102, 111, 114, 109, 97, 116],
       PStr [101, 120, 99, 101, 108]),
      ([101, 120, 99, 101, 108, 95, 102, 105, 108, 101, 110, 97, 109, 101],
       PStr [75, 80, 73, 26816, 26597, 25253, 21578, 46, 120, 108, 115, 120]),
      ([116, 120, 116, 95, 102, 105, 108, 101, 110, 97, 109, 101],
       PStr [75, 80, 73, 26816, 26597, 25253, 21578, 46, 116, 120, 116])]"

definition default_fixer :: pydict where
  "default_fixer =
     [([101, 110, 97, 98, 108, 101, 100], PBool False),
      ([116, 101, 109, 112, 108, 97, 116, 101],
       PStr [123, 121, 101, 97, 114, 125, 24180, 31532, 123, 113, 117, 97, 114, 116, 101,
            114, 125, 23395, 24230, 75, 80, 73, 32771, 26680, 33258, 35780, 95, 95, 20998,
            12290])]"

definition default_config :: pydict where
  "default_config =
     [(key_check_last_paragraphs, PInt 10),
      (key_kpi_patterns, PList (map PStr default_patterns)),
      (key_report, PDict default_report),
      (key_fixer, PDict default_fixer)]"

subsection \<open>Files\<close>

text \<open>
  A file holds a JSON document or something else. \<open>json.dump\<close> followed by \<open>json.load\<close>
  gives back the dictionaries, lists, strings, integers, booleans and \<open>None\<close> that were
  written, so a JSON file is modelled by the value it holds.
\<close>

datatype file_content = JsonFile pyval | OtherFile

type_synonym filesystem = "pystr \<Rightarrow> file_content option"

text \<open>
  \<open>save_config\<close>: \<open>can_write\<close> says whether \<open>open(config_file, 'w')\<close> and the write
  succeed; an \<open>IOError\<close> is caught and printed, and nothing is written.
\<close>

definition save_config :: "pydict \<Rightarrow> pystr \<Rightarrow> bool \<Rightarrow> filesystem \<Rightarrow> filesystem" where
  "save_config config config_file can_write fs =
     (if can_write then fs(config_file \<mapsto> JsonFile (PDict config)) else fs)"

text \<open>The body of the loop over \<open>user_config.items()\<close>.\<close>

definition merge_item :: "pydict \<Rightarrow> pystr \<times> pyval \<Rightarrow> pydict" where
  "merge_item config kv =
     (case snd kv of
        PDict dv \<Rightarrow>
          (case dict_get config (fst kv) of
             Some (PDict dc) \<Rightarrow> dict_set config (fst kv) (PDict (dict_update dc dv))
           | _ \<Rightarrow> dict_set config (fst kv) (snd kv))
      | _ \<Rightarrow> dict_set config (fst kv) (snd kv))"

text \<open>
  \<open>load_config\<close>: a missing or unreadable file (\<open>IOError\<close>) and a file that is not JSON
  (\<open>JSONDecodeError\<close>) are caught and leave the configuration as it was; a JSON document
  that is not an object has no \<open>items\<close>, which is not caught.
\<close>

definition load_config :: "pydict \<Rightarrow> pystr \<Rightarrow> filesystem \<Rightarrow> py_error + pydict" where
  "load_config config config_file fs =
     (case fs config_file of
        None \<Rightarrow> Inr config
      | Some OtherFile \<Rightarrow> Inr config
      | Some (JsonFile (PDict user_config)) \<Rightarrow> Inr (foldl merge_item config user_config)
      | Some (JsonFile _) \<Rightarrow> Inl AttributeError)"

text \<open>\<open>Config(config_file)\<close>\<close>

definition new_config :: "pystr option \<Rightarrow> filesystem \<Rightarrow> py_error + pydict" where
  "new_config config_file fs =
     (case config_file of
        None \<Rightarrow> Inr default_config
      | Some p \<Rightarrow>
          if p \<noteq> [] \<and> fs p \<noteq> None then load_config default_config p fs
          else Inr default_config)"

definition get_kpi_patterns :: "pydict \<Rightarrow> pyval" where
  "get_kpi_patterns config =
     (case dict_get config key_kpi_patterns of None \<Rightarrow> PList [] | Some v \<Rightarrow> v)"

definition set_value :: "pydict \<Rightarrow> pystr \<Rightarrow> pyval \<Rightarrow> pydict" where
  "set_value config key v = dict_set config key v"

text \<open>\<open>pattern in s\<close> for a string \<open>s\<close>: \<open>pattern\<close> occurs in it.\<close>

definition occurs_in :: "pystr \<Rightarrow> pystr \<Rightarrow> bool" where
  "occurs_in p s = (\<exists>i \<in> set [0..<Suc (length s)]. take (length p) (drop i s) = p)"

text \<open>
  \<open>add_kpi_pattern\<close>: \<open>pattern not in self.config["kpi_patterns"]\<close> is membership in a
  list, occurrence in a string, a key test on a dictionary and a \<open>TypeError\<close> on anything
  else; only a list has \<open>append\<close>.
\<close>

definition add_kpi_pattern :: "pydict \<Rightarrow> pystr \<Rightarrow> py_error + pydict" where
  "add_kpi_pattern config pattern =
     (let config1 = (if dict_get config key_kpi_patterns = None
                     then dict_set config key_kpi_patterns (PList []) else config)
      in case dict_get config1 key_kpi_patterns of
           Some (PList xs) \<Rightarrow>
             if PStr pattern \<notin> set xs
             then Inr (dict_set config1 key_kpi_patterns (PList (xs @ [PStr pattern])))
             else Inr config1
         | Some (PStr s) \<Rightarrow> if \<not> occurs_in pattern s then Inl AttributeError else Inr config1
         | Some (PDict d) \<Rightarrow>
             if pattern \<notin> fst ` set d then Inl AttributeError else Inr config1
         | _ \<Rightarrow> Inl TypeError)"

text \<open>
  The configurations that the class can hold: a dictionary has each key once, and the
  key \<open>kpi_patterns\<close> of the default configuration is never removed.
\<close>

definition well_formed_config :: "pydict \<Rightarrow> bool" where
  "well_formed_config config =
     (distinct (map fst config) \<and> dict_get config key_kpi_patterns \<noteq> None)"

section \<open>Groups that every match sets\<close>

text \<open>
  \<open>always_sets r n\<close>: group \<open>n\<close> lies on every path through \<open>r\<close>, under no optional
  repetition, so it takes part in every match of \<open>r\<close>.
\<close>

primrec always_sets :: "regex \<Rightarrow> nat \<Rightarrow> bool" where
  "always_sets REmpty n = False"
| "always_sets (RAtom k) n = False"
| "always_sets (RSeq r1 r2) n = (always_sets r1 n \<or> always_sets r2 n)"
| "always_sets (RGroup g r) n = (g = n \<or> always_sets r n)"
| "always_sets (RRep lo hi r) n = (0 < lo \<and> always_sets r n)"

text \<open>
  The group that \<open>check_text\<close> reads the score from (group 2 of pattern 0, group 1 of the
  others) takes part in every match of its pattern.
\<close>

definition score_groups_mandatory :: "pystr list \<Rightarrow> bool" where
  "score_groups_mandatory patterns =
     (case compile_all patterns of
        Inl e \<Rightarrow> False
      | Inr cs \<Rightarrow>
          list_all (\<lambda>k. always_sets (c_regex (cs ! k)) (if k = 0 then 2 else 1))
            [0..<length cs])"

text \<open>
  \<open>digit_group r n\<close>: on every path through \<open>r\<close> the last group numbered \<open>n\<close> is not
  optional and its body reads one or more digits and nothing else, as \<open>(\d{1,3})\<close>
  does.
\<close>

primrec digits_only :: "regex \<Rightarrow> bool" where
  "digits_only REmpty = True"
| "digits_only (RAtom k) = (k = CDigit)"
| "digits_only (RSeq r1 r2) = (digits_only r1 \<and> digits_only r2)"
| "digits_only (RGroup g r) = False"
| "digits_only (RRep lo hi r) = digits_only r"

primrec reads_some :: "regex \<Rightarrow> bool" where
  "reads_some REmpty = False"
| "reads_some (RAtom k) = True"
| "reads_some (RSeq r1 r2) = (reads_some r1 \<or> reads_some r2)"
| "reads_some (RGroup g r) = reads_some r"
| "reads_some (RRep lo hi r) = (0 < lo \<and> reads_some r)"

primrec mentions :: "regex \<Rightarrow> nat \<Rightarrow> bool" where
  "mentions REmpty n = False"
| "mentions (RAtom k) n = False"
| "mentions (RSeq r1 r2) n = (mentions r1 n \<or> mentions r2 n)"
| "mentions (RGroup g r) n = (g = n \<or> mentions r n)"
| "mentions (RRep lo hi r) n = mentions r n"

primrec digit_group :: "regex \<Rightarrow> nat \<Rightarrow> bool" where
  "digit_group REmpty n = False"
| "digit_group (RAtom k) n = False"
| "digit_group (RSeq r1 r2) n =
     ((digit_group r1 n \<and> \<not> mentions r2 n) \<or> digit_group r2 n)"
| "digit_group (RGroup g r) n =
     ((g = n \<and> digits_only r \<and> reads_some r) \<or> (g \<noteq> n \<and> digit_group r n))"
| "digit_group (RRep lo hi r) n = (0 < lo \<and> digit_group r n)"

definition score_groups_digits :: "pystr list \<Rightarrow> bool" where
  "score_groups_digits patterns =
     (case compile_all patterns of
        Inl e \<Rightarrow> False
      | Inr cs \<Rightarrow>
          list_all (\<lambda>k. digit_group (c_regex (cs ! k)) (if k = 0 then 2 else 1))
            [0..<length cs])"


text \<open>
  \<open>inside_text t st\<close>: the rest of the state is an end piece of the text \<open>t\<close> and every
  group captured so far is a piece of \<open>t\<close>.
\<close>

definition inside_text :: "pystr \<Rightarrow> mstate \<Rightarrow> bool" where
  "inside_text t st =
     ((\<exists>pre. t = pre @ fst st)
      \<and> (\<forall>n g. (n, g) \<in> set (snd st) \<longrightarrow> (\<exists>a b. t = a @ g @ b)))"

section \<open>Verdicts whose score agrees with the flag\<close>


section \<open>Texts and patterns of the examples\<close>

text \<open>\<^verbatim>\<open>2024U+5E74 U+7B2C U+56DB U+5B63 U+5EA6 KPIU+8003 U+6838 U+81EA U+8BC4 85U+5206 \<close>\<close>

definition text_scenario :: pystr where
  "text_scenario =
     [50, 48, 50, 52, 24180, 31532, 22235, 23395, 24230, 75, 80, 73, 32771, 26680, 33258,
     35780, 56, 53, 20998]"

text \<open>\<^verbatim>\<open>U+672C U+5B63 U+5EA6 U+5DE5 U+4F5C U+603B U+7ED3 U+FF1A U+65E0 U+76F8 U+5173 U+5185 U+5BB9 \<close>\<close>

definition text_no_statement :: pystr where
  "text_no_statement =
     [26412, 23395, 24230, 24037, 20316, 24635, 32467, 65306, 26080, 30456, 20851, 20869,
     23481]"

text \<open>Pattern 2 matches at the start, pattern 0 further on: \<^verbatim>\<open>KPI U+81EA U+8BC4 U+5F97 U+5206  94 U+5206 U+FF0C 2024U+5E74 U+7B2C U+56DB U+5B63 U+5EA6 KPIU+8003 U+6838 U+81EA U+8BC4 85U+5206 \<close>\<close>

definition text_both :: pystr where
  "text_both =
     [75, 80, 73, 32, 33258, 35780, 24471, 20998, 32, 57, 52, 32, 20998, 65292, 50, 48, 50,
     52, 24180, 31532, 22235, 23395, 24230, 75, 80, 73, 32771, 26680, 33258, 35780, 56, 53,
     20998]"

text \<open>Two occurrences of pattern 4: \<^verbatim>\<open>KPIU+8003 U+6838 U+81EA U+8BC4 82U+5206  KPIU+8003 U+6838 U+81EA U+8BC4 90U+5206 \<close>\<close>

definition text_twice :: pystr where
  "text_twice =
     [75, 80, 73, 32771, 26680, 33258, 35780, 56, 50, 20998, 32, 75, 80, 73, 32771, 26680,
     33258, 35780, 57, 48, 20998]"

text \<open>A pattern whose only group is optional: \<^verbatim>\<open>U+81EA U+8BC4 (\d+)?U+5206 \<close>\<close>

definition pattern_optional :: pystr where
  "pattern_optional =
     [33258, 35780, 40, 92, 100, 43, 41, 63, 20998]"

text \<open>\<^verbatim>\<open>U+81EA U+8BC4 U+5206 \<close>\<close>

definition text_optional :: pystr where
  "text_optional =
     [33258, 35780, 20998]"







text \<open>A configuration file \<open>c.json\<close> and a new pattern \<open>a(\d+)\<close>.\<close>

definition config_path :: pystr where
  "config_path = [99, 46, 106, 115, 111, 110]"

definition pattern_new :: pystr where
  "pattern_new = [97, 40, 92, 100, 43, 41]"

definition no_files :: filesystem where
  "no_files = (\<lambda>p. None)"

section \<open>Properties of the checker\<close>

lemma check_patterns_no_match:
  "\<forall>c\<in>set cs. re_finditer c t = [] \<Longrightarrow> check_patterns ps i cs t = Inr no_statement"
  by (induction cs arbitrary: i) auto

lemma check_patterns_first_match:
  "k < length cs \<Longrightarrow> \<forall>l<k. re_finditer (cs ! l) t = [] \<Longrightarrow> re_finditer (cs ! k) t = m # ms
    \<Longrightarrow> check_patterns ps i cs t = match_result ps (i + k) m"
proof (induction cs arbitrary: i k)
  case Nil
  then show ?case by simp
next
  case (Cons c cs)
  show ?case
  proof (cases k)
    case 0
    with Cons.prems show ?thesis by simp
  next
    case (Suc k')
    from Cons.prems Suc have c: "re_finditer c t = []" by auto
    from Cons.prems Suc have "k' < length cs" "\<forall>l<k'. re_finditer (cs ! l) t = []"
      "re_finditer (cs ! k') t = m # ms" by auto
    from Cons.IH[OF this, of "Suc i"] c Suc show ?thesis by simp
  qed
qed

lemma check_text_str:
  "t \<noteq> [] \<Longrightarrow> compile_all ps = Inr cs \<Longrightarrow> check_text ps (PStr t) = check_patterns ps 0 cs t"
  by (simp add: check_text_def)

lemma compile_all_length: "compile_all ps = Inr cs \<Longrightarrow> length cs = length ps"
  by (induction ps arbitrary: cs) (auto split: sum.splits)

lemma compile_all_take: "compile_all ps = Inr cs \<Longrightarrow> compile_all (take n ps) = Inr (take n cs)"
proof (induction ps arbitrary: cs n)
  case Nil
  then show ?case by simp
next
  case (Cons p ps)
  then show ?case by (cases n) (auto split: sum.splits)
qed

lemma compile_all_append:
  "compile_all ps = Inr cs \<Longrightarrow> compile_all qs = Inr ds \<Longrightarrow> compile_all (ps @ qs) = Inr (cs @ ds)"
  by (induction ps arbitrary: cs) (auto split: sum.splits)

lemma match_result_cong:
  "ps ! k = qs ! k \<Longrightarrow> match_result ps k m = match_result qs k m"
  by (auto simp: match_result_def split: sum.splits)

lemma default_patterns_compile:
  "compile_all default_patterns = Inr (projr (compile_all default_patterns))"
  by code_simp



text \<open>
  C6. For an absent text (\<open>None\<close>), for the empty text, and for any text in which no
  pattern has a match (a text of white space only among them), \<open>check_text\<close> returns
  the verdict with \<open>has_kpi_statement\<close> false and every other field \<open>None\<close>; it returns
  it as a value, not as an error. The patterns are regular expressions: they compile.
\<close>

theorem check_text_no_match:
  "check_text patterns PNone = Inr \<lparr>has_kpi_statement = False, score = PNone,
       matching_pattern = PNone, match_text = PNone, year = PNone\<rparr>
   \<and> check_text patterns (PStr []) = Inr \<lparr>has_kpi_statement = False, score = PNone,
       matching_pattern = PNone, match_text = PNone, year = PNone\<rparr>
   \<and> (compile_all patterns = Inr cs \<longrightarrow> (\<forall>c\<in>set cs. re_finditer c t = []) \<longrightarrow>
        check_text patterns (PStr t) = Inr \<lparr>has_kpi_statement = False, score = PNone,
          matching_pattern = PNone, match_text = PNone, year = PNone\<rparr>)"
proof (intro conjI impI)
  show "check_text patterns PNone = Inr \<lparr>has_kpi_statement = False, score = PNone,
       matching_pattern = PNone, match_text = PNone, year = PNone\<rparr>"
    by (simp add: check_text_def no_statement_def)
  show "check_text patterns (PStr []) = Inr \<lparr>has_kpi_statement = False, score = PNone,
       matching_pattern = PNone, match_text = PNone, year = PNone\<rparr>"
    by (simp add: check_text_def no_statement_def)
next
  assume c: "compile_all patterns = Inr cs" and n: "\<forall>c\<in>set cs. re_finditer c t = []"
  show "check_text patterns (PStr t) = Inr \<lparr>has_kpi_statement = False, score = PNone,
          matching_pattern = PNone, match_text = PNone, year = PNone\<rparr>"
  proof (cases "t = []")
    case True
    then show ?thesis by (simp add: check_text_def no_statement_def)
  next
    case False
    from False c have "check_text patterns (PStr t) = check_patterns patterns 0 cs t"
      by (rule check_text_str)
    also from n have "\<dots> = Inr no_statement" by (rule check_patterns_no_match)
    finally show ?thesis by (simp add: no_statement_def)
  qed
qed

theorem check_text_no_match_witness:
  "list_all (\<lambda>c. re_finditer c [32, 32, 32] = []) (projr (compile_all default_patterns))
   \<and> list_all (\<lambda>c. re_finditer c text_no_statement = []) (projr (compile_all default_patterns))
   \<and> check_text default_patterns (PStr [32, 32, 32]) = Inr no_statement
   \<and> check_text default_patterns (PStr text_no_statement) = Inr no_statement"
proof -
  have a: "list_all (\<lambda>c. re_finditer c [32, 32, 32] = []) (projr (compile_all default_patterns))"
    by code_simp
  have b: "list_all (\<lambda>c. re_finditer c text_no_statement = [])
      (projr (compile_all default_patterns))"
    by code_simp
  from check_text_no_match [of default_patterns "projr (compile_all default_patterns)" "[32, 32, 32]"]
    check_text_no_match [of default_patterns "projr (compile_all default_patterns)" text_no_statement]
    default_patterns_compile a b
  show ?thesis by (simp add: no_statement_def list_all_iff)
qed

lemma compile_all_nth_take:
  "compile_all ps = Inr cs \<Longrightarrow> compile_all later = Inr ds \<Longrightarrow>
     compile_all (take n ps @ later) = Inr (take n cs @ ds)"
  by (rule compile_all_append [OF compile_all_take])

text \<open>
  C1. When at least two patterns have a match in a text, \<open>check_text\<close> returns what the
  inner loop extracts from the first match of the pattern with the lowest index among
  the matching ones (pattern 0 when it is one of them), wherever in the text the matches
  lie. The patterns after that one are not consulted: replacing them by any other
  regular expressions leaves the verdict as it is. The patterns are regular
  expressions: all of them compile, which \<open>check_text\<close> does before it looks at the text.
\<close>

theorem first_matching_pattern_wins:
  assumes "compile_all patterns = Inr cs" and "t \<noteq> []" and "i < j" and "j < length cs"
    and "re_finditer (cs ! i) t \<noteq> []" and "re_finditer (cs ! j) t \<noteq> []"
  shows "\<exists>k m ms. k \<le> i \<and> (\<forall>l<k. re_finditer (cs ! l) t = [])
      \<and> re_finditer (cs ! k) t = m # ms
      \<and> check_text patterns (PStr t) = match_result patterns k m
      \<and> (\<forall>later ds. compile_all later = Inr ds \<longrightarrow>
            check_text (take (Suc k) patterns @ later) (PStr t) = check_text patterns (PStr t))"
proof -
  define k where "k = (LEAST l. re_finditer (cs ! l) t \<noteq> [])"
  have k_match: "re_finditer (cs ! k) t \<noteq> []"
    unfolding k_def using assms(5) by (rule LeastI)
  have k_le: "k \<le> i"
    unfolding k_def using assms(5) by (rule Least_le)
  have k_first: "\<forall>l<k. re_finditer (cs ! l) t = []"
    unfolding k_def using not_less_Least by blast
  from k_match obtain m ms where m: "re_finditer (cs ! k) t = m # ms"
    by (cases "re_finditer (cs ! k) t") auto
  from k_le assms(3,4) have k_len: "k < length cs" by simp
  with assms(1) have k_len': "k < length patterns" by (simp add: compile_all_length)
  have res: "check_text patterns (PStr t) = match_result patterns k m"
    using check_text_str [OF assms(2) assms(1)]
      check_patterns_first_match [OF k_len k_first m, of patterns 0] by simp
  have later: "check_text (take (Suc k) patterns @ later) (PStr t) = check_text patterns (PStr t)"
    if d: "compile_all later = Inr ds" for later ds
  proof -
    let ?ps = "take (Suc k) patterns @ later" and ?cs = "take (Suc k) cs @ ds"
    have c: "compile_all ?ps = Inr ?cs"
      using assms(1) d by (rule compile_all_nth_take)
    have len: "k < length ?cs" using k_len by simp
    have nth: "?cs ! l = cs ! l" if "l \<le> k" for l
      using that k_len by (simp add: nth_append)
    have first: "\<forall>l<k. re_finditer (?cs ! l) t = []"
      using k_first nth by simp
    have m': "re_finditer (?cs ! k) t = m # ms"
      using m nth by simp
    have "check_text ?ps (PStr t) = match_result ?ps k m"
      using check_text_str [OF assms(2) c]
        check_patterns_first_match [OF len first m', of ?ps 0] by simp
    also have "\<dots> = match_result patterns k m"
      using k_len' by (intro match_result_cong) (simp add: nth_append)
    finally show ?thesis using res by simp
  qed
  from k_le k_first m res later show ?thesis by blast
qed

theorem first_matching_pattern_wins_witness:
  "re_finditer (projr (compile_all default_patterns) ! 0) text_both \<noteq> []
   \<and> re_finditer (projr (compile_all default_patterns) ! 2) text_both \<noteq> []
   \<and> m_start (hd (re_finditer (projr (compile_all default_patterns) ! 2) text_both))
       < m_start (hd (re_finditer (projr (compile_all default_patterns) ! 0) text_both))
   \<and> check_text default_patterns (PStr text_both) =
       Inr \<lparr>has_kpi_statement = True, score = PStr [56, 53],
            matching_pattern = PStr pattern0,
            match_text = PStr text_scenario, year = PStr [50, 48, 50, 52]\<rparr>
   \<and> (\<exists>k m ms. k \<le> 0 \<and> (\<forall>l<k. re_finditer (projr (compile_all default_patterns) ! l) text_both = [])
      \<and> re_finditer (projr (compile_all default_patterns) ! k) text_both = m # ms
      \<and> check_text default_patterns (PStr text_both) = match_result default_patterns k m
      \<and> (\<forall>later ds. compile_all later = Inr ds \<longrightarrow>
            check_text (take (Suc k) default_patterns @ later) (PStr text_both)
              = check_text default_patterns (PStr text_both)))"
proof -
  have h2: "text_both \<noteq> []" by code_simp
  have h3: "(0::nat) < 2" by simp
  have h4: "2 < length (projr (compile_all default_patterns))" by code_simp
  have h5: "re_finditer (projr (compile_all default_patterns) ! 0) text_both \<noteq> []" by code_simp
  have h6: "re_finditer (projr (compile_all default_patterns) ! 2) text_both \<noteq> []" by code_simp
  have p: "m_start (hd (re_finditer (projr (compile_all default_patterns) ! 2) text_both))
       < m_start (hd (re_finditer (projr (compile_all default_patterns) ! 0) text_both))"
    by code_simp
  have v: "check_text default_patterns (PStr text_both) =
       Inr \<lparr>has_kpi_statement = True, score = PStr [56, 53],
            matching_pattern = PStr pattern0,
            match_text = PStr text_scenario, year = PStr [50, 48, 50, 52]\<rparr>"
    by code_simp
  note first_matching_pattern_wins [OF default_patterns_compile h2 h3 h4 h5 h6]
  with h5 h6 p v show ?thesis by (intro conjI)
qed

subsection \<open>The order of the matches of \<open>finditer\<close>\<close>

lemma match_at_start: "match_at c t pos adv = Some m \<Longrightarrow> m_start m = pos \<and> pos \<le> m_end m"
  by (auto simp: match_at_def split: list.splits)

lemma re_scan_unfold:
  "re_scan c t pos adv =
     (if length t < pos then []
      else case match_at c t pos adv of
        None \<Rightarrow> re_scan c t (Suc pos) False
      | Some m \<Rightarrow> m # re_scan c t (m_end m) (m_end m = pos))"
  by (rule re_scan.simps)

lemma re_scan_first:
  "re_scan c t pos adv = m # ms \<Longrightarrow>
     pos \<le> m_start m
     \<and> (\<forall>q. pos < q \<and> q < m_start m \<longrightarrow> match_at c t q False = None)
     \<and> (pos < m_start m \<longrightarrow> match_at c t pos adv = None)
     \<and> match_at c t (m_start m) (adv \<and> m_start m = pos) = Some m"
proof (induction c t pos adv rule: re_scan.induct)
  case (1 c t pos adv)
  from "1.prems" have le: "\<not> length t < pos"
    by (subst (asm) re_scan_unfold) (auto split: if_splits)
  show ?case
  proof (cases "match_at c t pos adv")
    case None
    with "1.prems" le have rest: "re_scan c t (Suc pos) False = m # ms"
      by (subst (asm) re_scan_unfold) simp
    from "1.IH"(1) [OF le None rest]
    have ih1: "Suc pos \<le> m_start m"
      and ih2: "\<forall>q. Suc pos < q \<and> q < m_start m \<longrightarrow> match_at c t q False = None"
      and ih3: "Suc pos < m_start m \<longrightarrow> match_at c t (Suc pos) False = None"
      and ih4: "match_at c t (m_start m) False = Some m"
      by simp_all
    have between: "match_at c t q False = None" if "pos < q" "q < m_start m" for q
    proof (cases "q = Suc pos")
      case True
      with that ih3 show ?thesis by simp
    next
      case False
      with that have "Suc pos < q" by simp
      with that ih2 show ?thesis by simp
    qed
    from ih1 have "m_start m \<noteq> pos" by simp
    with ih1 ih4 between None show ?thesis by auto
  next
    case (Some m0)
    with "1.prems" le have "m0 = m"
      by (subst (asm) re_scan_unfold) simp
    with Some match_at_start [OF Some] show ?thesis by auto
  qed
qed

lemma re_scan_starts:
  "m' \<in> set (re_scan c t pos adv) \<Longrightarrow> pos \<le> m_start m'"
proof (induction c t pos adv rule: re_scan.induct)
  case (1 c t pos adv)
  from "1.prems" have le: "\<not> length t < pos"
    by (subst (asm) re_scan_unfold) (auto split: if_splits)
  show ?case
  proof (cases "match_at c t pos adv")
    case None
    with "1.prems" le have "m' \<in> set (re_scan c t (Suc pos) False)"
      by (subst (asm) re_scan_unfold) simp
    from "1.IH"(1) [OF le None this] show ?thesis by simp
  next
    case (Some m0)
    with "1.prems" le have "m' = m0 \<or> m' \<in> set (re_scan c t (m_end m0) (m_end m0 = pos))"
      by (subst (asm) re_scan_unfold) simp
    then show ?thesis
    proof
      assume "m' = m0"
      with match_at_start [OF Some] show ?thesis by simp
    next
      assume "m' \<in> set (re_scan c t (m_end m0) (m_end m0 = pos))"
      from "1.IH"(2) [OF le Some this] match_at_start [OF Some] show ?thesis by simp
    qed
  qed
qed

lemma re_scan_later:
  "re_scan c t pos adv = m # ms \<Longrightarrow> m' \<in> set ms \<Longrightarrow> m_end m \<le> m_start m'"
proof (induction c t pos adv rule: re_scan.induct)
  case (1 c t pos adv)
  from "1.prems"(1) have le: "\<not> length t < pos"
    by (subst (asm) re_scan_unfold) (auto split: if_splits)
  show ?case
  proof (cases "match_at c t pos adv")
    case None
    with "1.prems" le have rest: "re_scan c t (Suc pos) False = m # ms"
      by (subst (asm) re_scan_unfold) simp
    from "1.IH"(1) [OF le None rest "1.prems"(2)] show ?thesis .
  next
    case (Some m0)
    with "1.prems" le have "m0 = m" "ms = re_scan c t (m_end m0) (m_end m0 = pos)"
      by (subst (asm) re_scan_unfold, simp)+
    with "1.prems"(2) re_scan_starts [of m' c t "m_end m0" "m_end m0 = pos"]
    show ?thesis by simp
  qed
qed

lemma re_finditer_leftmost:
  assumes "re_finditer c t = m # ms"
  shows "(\<forall>q<m_start m. match_at c t q False = None)"
    and "match_at c t (m_start m) False = Some m"
    and "\<forall>m'\<in>set ms. m_start m \<le> m_end m \<and> m_end m \<le> m_start m'"
proof -
  from assms have s: "re_scan c t 0 False = m # ms" by (simp add: re_finditer_def)
  from re_scan_first [OF s] show "\<forall>q<m_start m. match_at c t q False = None"
    by (metis gr0I)
  from re_scan_first [OF s] show a: "match_at c t (m_start m) False = Some m" by simp
  from re_scan_later [OF s] match_at_start [OF a]
  show "\<forall>m'\<in>set ms. m_start m \<le> m_end m \<and> m_end m \<le> m_start m'" by simp
qed

text \<open>
  C7. When the winning pattern (the one with the lowest index among the matching ones)
  occurs more than once in the text, the verdict is extracted from its leftmost
  occurrence: the match that \<open>check_text\<close> uses starts where no earlier position has a
  match of that pattern, and every other occurrence found starts at or after its end.
\<close>

theorem first_occurrence_is_leftmost:
  assumes "compile_all patterns = Inr cs" and "t \<noteq> []" and "k < length cs"
    and "\<forall>l<k. re_finditer (cs ! l) t = []"
    and "re_finditer (cs ! k) t = m # ms" and "ms \<noteq> []"
  shows "check_text patterns (PStr t) = match_result patterns k m
     \<and> (\<forall>q<m_start m. match_at (cs ! k) t q False = None)
     \<and> (\<forall>m'\<in>set ms. m_start m \<le> m_start m' \<and> m_end m \<le> m_start m')"
proof (intro conjI)
  show "check_text patterns (PStr t) = match_result patterns k m"
    using check_text_str [OF assms(2) assms(1)]
      check_patterns_first_match [OF assms(3) assms(4) assms(5), of patterns 0] by simp
  show "\<forall>q<m_start m. match_at (cs ! k) t q False = None"
    using assms(5) by (rule re_finditer_leftmost(1))
  show "\<forall>m'\<in>set ms. m_start m \<le> m_start m' \<and> m_end m \<le> m_start m'"
    using re_finditer_leftmost(3) [OF assms(5)] by auto
qed

theorem first_occurrence_is_leftmost_witness:
  "map (\<lambda>m. (m_start m, m_end m)) (re_finditer (projr (compile_all default_patterns) ! 4) text_twice)
     = [(0, 10), (11, 21)]
   \<and> check_text default_patterns (PStr text_twice) =
       Inr \<lparr>has_kpi_statement = True, score = PStr [56, 50],
            matching_pattern = PStr pattern4,
            match_text = PStr (take 10 text_twice), year = PNone\<rparr>
   \<and> check_text default_patterns (PStr text_twice) =
       match_result default_patterns 4
         (hd (re_finditer (projr (compile_all default_patterns) ! 4) text_twice))"
proof -
  let ?cs = "projr (compile_all default_patterns)"
  have h2: "text_twice \<noteq> []" by code_simp
  have h3: "4 < length ?cs" by code_simp
  have h4': "list_all (\<lambda>l. re_finditer (?cs ! l) text_twice = []) [0..<4]" by code_simp
  have h4: "\<forall>l<4. re_finditer (?cs ! l) text_twice = []"
    using h4' by (simp add: list_all_iff)
  have h5: "re_finditer (?cs ! 4) text_twice
      = hd (re_finditer (?cs ! 4) text_twice) # tl (re_finditer (?cs ! 4) text_twice)"
    by code_simp
  have h6: "tl (re_finditer (?cs ! 4) text_twice) \<noteq> []" by code_simp
  have p: "map (\<lambda>m. (m_start m, m_end m)) (re_finditer (?cs ! 4) text_twice) = [(0, 10), (11, 21)]"
    by code_simp
  have v: "check_text default_patterns (PStr text_twice) =
       Inr \<lparr>has_kpi_statement = True, score = PStr [56, 50],
            matching_pattern = PStr pattern4,
            match_text = PStr (take 10 text_twice), year = PNone\<rparr>"
    by code_simp
  from first_occurrence_is_leftmost [OF default_patterns_compile h2 h3 h4 h5 h6] p v
  show ?thesis by blast
qed

subsection \<open>What a match captures\<close>

lemma rep_exact_preserves:
  assumes step: "\<And>a b. P a \<Longrightarrow> b \<in> set (f a) \<Longrightarrow> P b"
  shows "P st \<Longrightarrow> st' \<in> set (rep_exact f n st) \<Longrightarrow> P st'"
proof (induction n arbitrary: st)
  case 0
  then show ?case by simp
next
  case (Suc n)
  from Suc.prems(2) obtain st1 where
    a: "st1 \<in> set (f st)" and b: "st' \<in> set (rep_exact f n st1)" by auto
  from step [OF Suc.prems(1) a] have "P st1" .
  from Suc.IH [OF this b] show ?case .
qed

lemma rep_upto_preserves:
  assumes step: "\<And>a b. P a \<Longrightarrow> b \<in> set (f a) \<Longrightarrow> P b"
  shows "P st \<Longrightarrow> st' \<in> set (rep_upto f n st) \<Longrightarrow> P st'"
proof (induction n arbitrary: st)
  case 0
  then show ?case by simp
next
  case (Suc n)
  from Suc.prems(2) have "st' = st \<or> (\<exists>st1 \<in> set (f st). st' \<in> set (rep_upto f n st1))"
    by auto
  then show ?case
  proof
    assume "st' = st"
    with Suc.prems(1) show ?thesis by simp
  next
    assume "\<exists>st1 \<in> set (f st). st' \<in> set (rep_upto f n st1)"
    then obtain st1 where a: "st1 \<in> set (f st)" and b: "st' \<in> set (rep_upto f n st1)"
      by blast
    from step [OF Suc.prems(1) a] have "P st1" .
    from Suc.IH [OF this b] show ?thesis .
  qed
qed

lemma rep_exact_establishes:
  assumes "\<And>a b. b \<in> set (f a) \<Longrightarrow> P b" and "\<And>a b. P a \<Longrightarrow> b \<in> set (f a) \<Longrightarrow> P b"
  shows "0 < n \<Longrightarrow> st' \<in> set (rep_exact f n st) \<Longrightarrow> P st'"
proof (cases n)
  case 0
  assume "0 < n" with 0 show ?thesis by simp
next
  case (Suc n')
  assume "st' \<in> set (rep_exact f n st)"
  with Suc obtain st1 where "st1 \<in> set (f st)" "st' \<in> set (rep_exact f n' st1)" by auto
  with assms(1) [of st1 st] rep_exact_preserves [of P f st1 st' n'] assms(2)
  show ?thesis by blast
qed

text \<open>The captures only grow.\<close>

lemma rmatch_keeps:
  "map_of (snd st) n \<noteq> None \<Longrightarrow> st' \<in> set (rmatch r st) \<Longrightarrow> map_of (snd st') n \<noteq> None"
proof (induction r arbitrary: st st')
  case REmpty
  then show ?case by simp
next
  case (RAtom k)
  then show ?case by (auto split: list.splits if_splits)
next
  case (RSeq r1 r2)
  from RSeq.prems(2) obtain st1 where
    a: "st1 \<in> set (rmatch r1 st)" and b: "st' \<in> set (rmatch r2 st1)" by auto
  from RSeq.IH(1) [OF RSeq.prems(1) a] have "map_of (snd st1) n \<noteq> None" .
  from RSeq.IH(2) [OF this b] show ?case .
next
  case (RGroup g r)
  from RGroup.prems(2) obtain st1 where
    a: "st1 \<in> set (rmatch r st)"
    and b: "snd st' = (g, take (length (fst st) - length (fst st1)) (fst st)) # snd st1"
    by auto
  from RGroup.IH [OF RGroup.prems(1) a] b show ?case by simp
next
  case (RRep lo hi r)
  let ?P = "\<lambda>s. map_of (snd s) n \<noteq> None"
  have step: "\<And>a b. ?P a \<Longrightarrow> b \<in> set (rmatch r a) \<Longrightarrow> ?P b"
    using RRep.IH by blast
  from RRep.prems(2) obtain st1 where
    a: "st1 \<in> set (rep_exact (rmatch r) lo st)"
    and b: "st' \<in> set (rep_upto (rmatch r)
        (case hi of None \<Rightarrow> length (fst st) | Some h \<Rightarrow> h - lo) st1)"
    by auto
  from rep_exact_preserves [of ?P, OF step RRep.prems(1) a] have "?P st1" .
  from rep_upto_preserves [of ?P, OF step this b] show ?case .
qed

lemma rmatch_sets:
  "always_sets r n \<Longrightarrow> st' \<in> set (rmatch r st) \<Longrightarrow> map_of (snd st') n \<noteq> None"
proof (induction r arbitrary: st st')
  case REmpty
  then show ?case by simp
next
  case (RAtom k)
  then show ?case by simp
next
  case (RSeq r1 r2)
  from RSeq.prems(2) obtain st1 where
    a: "st1 \<in> set (rmatch r1 st)" and b: "st' \<in> set (rmatch r2 st1)" by auto
  from RSeq.prems(1) have "always_sets r1 n \<or> always_sets r2 n" by simp
  then show ?case
  proof
    assume "always_sets r1 n"
    from RSeq.IH(1) [OF this a] have "map_of (snd st1) n \<noteq> None" .
    from rmatch_keeps [OF this b] show ?thesis .
  next
    assume "always_sets r2 n"
    from RSeq.IH(2) [OF this b] show ?thesis .
  qed
next
  case (RGroup g r)
  from RGroup.prems(2) obtain st1 where
    a: "st1 \<in> set (rmatch r st)"
    and b: "snd st' = (g, take (length (fst st) - length (fst st1)) (fst st)) # snd st1"
    by auto
  show ?case
  proof (cases "g = n")
    case True
    with b show ?thesis by simp
  next
    case False
    with RGroup.prems(1) have "always_sets r n" by simp
    from RGroup.IH [OF this a] b False show ?thesis by simp
  qed
next
  case (RRep lo hi r)
  let ?P = "\<lambda>s. map_of (snd s) n \<noteq> None"
  from RRep.prems(1) have lo: "0 < lo" and r: "always_sets r n" by simp_all
  have est: "\<And>a b. b \<in> set (rmatch r a) \<Longrightarrow> ?P b"
    using RRep.IH [OF r] by blast
  have step: "\<And>a b. ?P a \<Longrightarrow> b \<in> set (rmatch r a) \<Longrightarrow> ?P b"
    using est by blast
  from RRep.prems(2) obtain st1 where
    a: "st1 \<in> set (rep_exact (rmatch r) lo st)"
    and b: "st' \<in> set (rep_upto (rmatch r)
        (case hi of None \<Rightarrow> length (fst st) | Some h \<Rightarrow> h - lo) st1)"
    by auto
  from rep_exact_establishes [of "rmatch r" ?P, OF est step lo a] have "?P st1" .
  from rep_upto_preserves [of ?P, OF step this b] show ?case .
qed

lemma match_at_state:
  "match_at c t pos adv = Some m \<Longrightarrow>
     \<exists>st \<in> set (rmatch (c_regex c) (drop pos t, [])).
        m_caps m = snd st \<and> m_ngroups m = c_groups c \<and> m_string m = t \<and> m_start m = pos
        \<and> m_end m = pos + (length (drop pos t) - length (fst st))"
proof -
  assume a: "match_at c t pos adv = Some m"
  define ok where "ok = (\<lambda>st :: mstate. \<not> adv \<or> length (fst st) < length (drop pos t))"
  from a obtain st sts where
    f: "filter ok (rmatch (c_regex c) (drop pos t, [])) = st # sts"
    and m: "m = \<lparr>m_string = t, m_start = pos,
                 m_end = pos + (length (drop pos t) - length (fst st)),
                 m_caps = snd st, m_ngroups = c_groups c\<rparr>"
    unfolding match_at_def ok_def by (auto split: list.splits)
  have "st \<in> set (filter ok (rmatch (c_regex c) (drop pos t, [])))"
    unfolding f by simp
  then have "st \<in> set (rmatch (c_regex c) (drop pos t, []))" by simp
  with m show ?thesis by auto
qed

lemma re_finditer_sets:
  assumes "re_finditer c t = m # ms" and "always_sets (c_regex c) n"
  shows "map_of (m_caps m) n \<noteq> None"
proof -
  from re_finditer_leftmost(2) [OF assms(1)] match_at_state
  obtain st where "st \<in> set (rmatch (c_regex c) (drop (m_start m) t, []))" "m_caps m = snd st"
    by blast
  with rmatch_sets [OF assms(2)] show ?thesis by simp
qed

lemma re_finditer_ngroups:
  assumes "re_finditer c t = m # ms"
  shows "m_ngroups m = c_groups c"
  using re_finditer_leftmost(2) [OF assms] match_at_state by blast

text \<open>What is still to be read is an end piece of what was to be read before.\<close>

lemma rmatch_suffix:
  "st' \<in> set (rmatch r st) \<Longrightarrow> \<exists>u. fst st = u @ fst st'"
proof (induction r arbitrary: st st')
  case REmpty
  then show ?case by simp
next
  case (RAtom k)
  then show ?case by (cases "fst st") (auto split: if_splits)
next
  case (RSeq r1 r2)
  from RSeq.prems obtain st1 where
    a: "st1 \<in> set (rmatch r1 st)" and b: "st' \<in> set (rmatch r2 st1)" by auto
  from RSeq.IH(1) [OF a] RSeq.IH(2) [OF b] show ?case by auto
next
  case (RGroup g r)
  from RGroup.prems obtain st1 where
    a: "st1 \<in> set (rmatch r st)" and b: "fst st' = fst st1" by auto
  from RGroup.IH [OF a] b show ?case by simp
next
  case (RRep lo hi r)
  let ?P = "\<lambda>s. \<exists>u. fst st = u @ fst s"
  have step: "\<And>a b. ?P a \<Longrightarrow> b \<in> set (rmatch r a) \<Longrightarrow> ?P b"
  proof -
    fix a b assume "?P a" and "b \<in> set (rmatch r a)"
    with RRep.IH [of b a] show "?P b" by auto
  qed
  have start: "?P st" by simp
  from RRep.prems obtain st1 where
    a: "st1 \<in> set (rep_exact (rmatch r) lo st)"
    and b: "st' \<in> set (rep_upto (rmatch r)
        (case hi of None \<Rightarrow> length (fst st) | Some h \<Rightarrow> h - lo) st1)"
    by auto
  from rep_exact_preserves [of ?P, OF step start a] have "?P st1" .
  from rep_upto_preserves [of ?P, OF step this b] show ?case .
qed

lemma rmatch_inside_text:
  "inside_text t st \<Longrightarrow> st' \<in> set (rmatch r st) \<Longrightarrow> inside_text t st'"
proof (induction r arbitrary: st st')
  case REmpty
  then show ?case by simp
next
  case (RAtom k)
  from RAtom.prems(2) obtain c where c: "fst st = c # fst st'" and s: "snd st' = snd st"
    by (cases "fst st") (auto split: if_splits)
  from RAtom.prems(1) obtain pre where "t = pre @ fst st" by (auto simp: inside_text_def)
  with c have "t = (pre @ [c]) @ fst st'" by simp
  with RAtom.prems(1) s show ?case unfolding inside_text_def by metis
next
  case (RSeq r1 r2)
  from RSeq.prems(2) obtain st1 where
    a: "st1 \<in> set (rmatch r1 st)" and b: "st' \<in> set (rmatch r2 st1)" by auto
  from RSeq.IH(2) [OF RSeq.IH(1) [OF RSeq.prems(1) a] b] show ?case .
next
  case (RGroup g r)
  from RGroup.prems(2) obtain st1 where
    a: "st1 \<in> set (rmatch r st)" and f: "fst st' = fst st1"
    and s: "snd st' = (g, take (length (fst st) - length (fst st1)) (fst st)) # snd st1"
    by auto
  from RGroup.IH [OF RGroup.prems(1) a] have w1: "inside_text t st1" .
  from rmatch_suffix [OF a] obtain u where u: "fst st = u @ fst st1" by blast
  then have cap: "take (length (fst st) - length (fst st1)) (fst st) = u" by simp
  from RGroup.prems(1) obtain pre where "t = pre @ fst st" by (auto simp: inside_text_def)
  with u have "t = pre @ u @ fst st1" by simp
  with w1 f s cap show ?case unfolding inside_text_def by auto
next
  case (RRep lo hi r)
  have step: "\<And>a b. inside_text t a \<Longrightarrow> b \<in> set (rmatch r a) \<Longrightarrow> inside_text t b"
    using RRep.IH by blast
  from RRep.prems(2) obtain st1 where
    a: "st1 \<in> set (rep_exact (rmatch r) lo st)"
    and b: "st' \<in> set (rep_upto (rmatch r)
        (case hi of None \<Rightarrow> length (fst st) | Some h \<Rightarrow> h - lo) st1)"
    by auto
  from rep_exact_preserves [of "inside_text t", OF step RRep.prems(1) a] have "inside_text t st1" .
  from rep_upto_preserves [of "inside_text t", OF step this b] show ?case .
qed

lemma re_finditer_group_inside:
  assumes "re_finditer c t = m # ms" and "0 < n" and "match_group m n = Inr (PStr g)"
  shows "\<exists>a b. t = a @ g @ b"
proof -
  from re_finditer_leftmost(2) [OF assms(1)] match_at_state
  obtain st where st: "st \<in> set (rmatch (c_regex c) (drop (m_start m) t, []))"
    and caps: "m_caps m = snd st" by blast
  have "inside_text t (drop (m_start m) t, [])"
    unfolding inside_text_def by (simp, metis append_take_drop_id)
  from rmatch_inside_text [OF this st] have w: "inside_text t st" .
  from assms(2,3) have "map_of (m_caps m) n = Some g"
    by (auto simp: match_group_def split: if_splits option.splits)
  then have "(n, g) \<in> set (m_caps m)" by (rule map_of_SomeD)
  with w caps show ?thesis by (auto simp: inside_text_def)
qed

subsection \<open>Score groups that read digits\<close>

lemma default_score_groups_digits: "score_groups_digits default_patterns"
  by code_simp








subsection \<open>The shape of a verdict\<close>

lemma check_patterns_result:
  "check_patterns ps i cs t = Inr v \<Longrightarrow>
     v = no_statement \<or>
     (\<exists>k m ms. k < length cs \<and> re_finditer (cs ! k) t = m # ms
        \<and> match_result ps (i + k) m = Inr v)"
proof (induction cs arbitrary: i)
  case Nil
  then show ?case by simp
next
  case (Cons c cs)
  show ?case
  proof (cases "re_finditer c t")
    case Nil
    with Cons.prems have "check_patterns ps (Suc i) cs t = Inr v" by simp
    from Cons.IH [OF this] show ?thesis
    proof
      assume "v = no_statement"
      then show ?thesis by simp
    next
      assume "\<exists>k m ms. k < length cs \<and> re_finditer (cs ! k) t = m # ms
        \<and> match_result ps (Suc i + k) m = Inr v"
      then obtain k m ms where "k < length cs" "re_finditer (cs ! k) t = m # ms"
        "match_result ps (Suc i + k) m = Inr v" by blast
      then have "Suc k < length (c # cs) \<and> re_finditer ((c # cs) ! Suc k) t = m # ms
        \<and> match_result ps (i + Suc k) m = Inr v" by simp
      then show ?thesis by blast
    qed
  next
    case (Cons m ms)
    with Cons.prems have "match_result ps i m = Inr v" by simp
    with Cons have "0 < length (c # cs) \<and> re_finditer ((c # cs) ! 0) t = m # ms
        \<and> match_result ps (i + 0) m = Inr v" by simp
    then show ?thesis by blast
  qed
qed

lemma match_group_0: "match_group m 0 = Inr (PStr (take (m_end m - m_start m) (drop (m_start m) (m_string m))))"
  by (simp add: match_group_def)

lemma match_result_fields:
  assumes "match_result ps k m = Inr v"
  shows "has_kpi_statement v" and "matching_pattern v = PStr (ps ! k)"
    and "match_text v = PStr (take (m_end m - m_start m) (drop (m_start m) (m_string m)))"
    and "match_group m (if k = 0 then 2 else 1) = Inr (score v)"
    and "year v = (if k = 0 then projr (match_group m 1) else PNone)"
    and "k = 0 \<Longrightarrow> match_group m 1 = Inr (year v)"
  using assms by (auto simp: match_result_def match_group_0 split: sum.splits if_splits)

lemma match_group_set:
  "map_of (m_caps m) n \<noteq> None \<Longrightarrow> match_group m n = Inr x \<Longrightarrow> 0 < n \<Longrightarrow> \<exists>g. x = PStr g"
  by (auto simp: match_group_def split: if_splits)

lemma check_text_result:
  assumes "check_text ps content = Inr v"
  shows "v = no_statement \<or>
     (\<exists>t cs k m ms. content = PStr t \<and> compile_all ps = Inr cs \<and> k < length cs
        \<and> re_finditer (cs ! k) t = m # ms \<and> match_result ps k m = Inr v)"
proof (cases "\<not> truthy content \<or> \<not> is_str content")
  case True
  with assms show ?thesis by (simp add: check_text_def)
next
  case False
  then obtain t where t: "content = PStr t" "t \<noteq> []" by (cases content) auto
  with assms obtain cs where cs: "compile_all ps = Inr cs"
    by (cases "compile_all ps") (auto simp: check_text_def)
  with t assms have "check_patterns ps 0 cs t = Inr v" by (simp add: check_text_def)
  from check_patterns_result [OF this] t cs show ?thesis by auto
qed

lemma score_groups_mandatoryD:
  "score_groups_mandatory ps \<Longrightarrow> compile_all ps = Inr cs \<Longrightarrow> k < length cs \<Longrightarrow>
     always_sets (c_regex (cs ! k)) (if k = 0 then 2 else 1)"
  by (simp add: score_groups_mandatory_def list_all_iff)

lemma match_group_shape:
  "match_group m n = Inr x \<Longrightarrow> 0 < n \<Longrightarrow> x = PNone \<or> (\<exists>s. x = PStr s)"
  by (auto simp: match_group_def split: if_splits option.splits)

lemma score_group_positive: "0 < (if k = 0 then 2 else (1::nat))"
  by simp

text \<open>
  C2, as the code has it. The verdict of a matching text holds the score as
  \<open>match.group\<close> returns it: the captured substring, a string (or \<open>None\<close> when the
  group took no part in the match), a piece of the text, never an integer;
  \<open>analyze_results\<close> is where \<open>int\<close> is applied to it. The year of pattern 0 is the
  substring captured by group 1, and the other patterns give no year.
\<close>

theorem score_is_the_captured_string:
  assumes "compile_all patterns = Inr cs" and "t \<noteq> []" and "k < length cs"
    and "\<forall>l<k. re_finditer (cs ! l) t = []"
    and "re_finditer (cs ! k) t = m # ms"
    and "check_text patterns (PStr t) = Inr v"
  shows "has_kpi_statement v
     \<and> match_group m (if k = 0 then 2 else 1) = Inr (score v)
     \<and> (score v = PNone \<or> (\<exists>s. score v = PStr s))
     \<and> (\<forall>n. score v \<noteq> PInt n)
     \<and> (\<forall>s. score v = PStr s \<longrightarrow> (\<exists>a b. t = a @ s @ b))
     \<and> year v = (if k = 0 then projr (match_group m 1) else PNone)
     \<and> (\<forall>y. year v = PStr y \<longrightarrow> k = 0 \<and> (\<exists>a b. t = a @ y @ b))
     \<and> matching_pattern v = PStr (patterns ! k)"
proof -
  have "check_text patterns (PStr t) = match_result patterns k m"
    using check_text_str [OF assms(2) assms(1)]
      check_patterns_first_match [OF assms(3) assms(4) assms(5), of patterns 0] by simp
  with assms(6) have r: "match_result patterns k m = Inr v" by simp
  note f = match_result_fields [OF r]
  from f(4) score_group_positive have shape: "score v = PNone \<or> (\<exists>s. score v = PStr s)"
    by (rule match_group_shape)
  then have noint: "\<forall>n. score v \<noteq> PInt n" by auto
  have sc: "\<exists>a b. t = a @ s @ b" if "score v = PStr s" for s
    using re_finditer_group_inside [OF assms(5) score_group_positive] f(4) that by simp
  have yr: "k = 0 \<and> (\<exists>a b. t = a @ y @ b)" if y: "year v = PStr y" for y
  proof (cases "k = 0")
    case True
    from f(6) [OF True] y have "match_group m 1 = Inr (PStr y)" by simp
    from re_finditer_group_inside [OF assms(5) _ this] True show ?thesis by simp
  next
    case False
    with f(5) y show ?thesis by simp
  qed
  from f(1) f(4) shape noint sc f(5) yr f(2) show ?thesis by blast
qed

theorem score_is_the_captured_string_witness:
  "check_text default_patterns (PStr text_scenario) =
     Inr \<lparr>has_kpi_statement = True, score = PStr [56, 53], matching_pattern = PStr pattern0,
          match_text = PStr text_scenario, year = PStr [50, 48, 50, 52]\<rparr>
   \<and> py_int (PStr [56, 53]) = Inr 85
   \<and> match_group (hd (re_finditer (projr (compile_all default_patterns) ! 0) text_scenario)) 2
       = Inr (PStr [56, 53])"
proof -
  let ?cs = "projr (compile_all default_patterns)"
  let ?v = "\<lparr>has_kpi_statement = True, score = PStr [56, 53], matching_pattern = PStr pattern0,
          match_text = PStr text_scenario, year = PStr [50, 48, 50, 52]\<rparr>"
  have h2: "text_scenario \<noteq> []" by code_simp
  have h3: "0 < length ?cs" by code_simp
  have h4: "\<forall>l<0. re_finditer (?cs ! l) text_scenario = []" by simp
  have h5: "re_finditer (?cs ! 0) text_scenario
      = hd (re_finditer (?cs ! 0) text_scenario) # tl (re_finditer (?cs ! 0) text_scenario)"
    by code_simp
  have h6: "check_text default_patterns (PStr text_scenario) = Inr ?v" by code_simp
  have i: "py_int (PStr [56, 53]) = Inr 85" by code_simp
  from score_is_the_captured_string [OF default_patterns_compile h2 h3 h4 h5 h6] h6 i
  show ?thesis by simp
qed

text \<open>
  C2 as stated fails: for the text of the scenario the score of the verdict is the
  string \<open>85\<close> (code points 56, 53), not the integer 85.
\<close>

theorem score_is_not_an_integer:
  "score (projr (check_text default_patterns (PStr text_scenario))) = PStr [56, 53]
   \<and> score (projr (check_text default_patterns (PStr text_scenario))) \<noteq> PInt 85"
  by code_simp

text \<open>
  C5, as the code has it. In every verdict that \<open>check_text\<close> returns,
  \<open>matching_pattern\<close> and \<open>match_text\<close> are present exactly when \<open>has_kpi_statement\<close> is
  true, and score and year are absent when it is false. The score is present with them
  for patterns whose score group takes part in every match, as it does in the five
  default patterns.
\<close>

theorem verdict_fields_together:
  assumes "check_text patterns content = Inr v"
  shows "(has_kpi_statement v \<longleftrightarrow> matching_pattern v \<noteq> PNone)
     \<and> (has_kpi_statement v \<longleftrightarrow> match_text v \<noteq> PNone)
     \<and> (\<not> has_kpi_statement v \<longrightarrow> score v = PNone \<and> year v = PNone)
     \<and> (score_groups_mandatory patterns \<longrightarrow> (has_kpi_statement v \<longleftrightarrow> score v \<noteq> PNone))"
  using check_text_result [OF assms]
proof
  assume "v = no_statement"
  then show ?thesis by (simp add: no_statement_def)
next
  assume "\<exists>t cs k m ms. content = PStr t \<and> compile_all patterns = Inr cs \<and> k < length cs
        \<and> re_finditer (cs ! k) t = m # ms \<and> match_result patterns k m = Inr v"
  then obtain t cs k m ms where cs: "compile_all patterns = Inr cs" and k: "k < length cs"
    and m: "re_finditer (cs ! k) t = m # ms" and r: "match_result patterns k m = Inr v"
    by blast
  note f = match_result_fields [OF r]
  have "score v \<noteq> PNone" if "score_groups_mandatory patterns"
  proof -
    from score_groups_mandatoryD [OF that cs k]
    have "always_sets (c_regex (cs ! k)) (if k = 0 then 2 else 1)" .
    from re_finditer_sets [OF m this]
    have "map_of (m_caps m) (if k = 0 then 2 else 1) \<noteq> None" .
    from match_group_set [OF this f(4) score_group_positive] show ?thesis by auto
  qed
  with f show ?thesis by simp
qed

theorem verdict_fields_together_witness:
  "score_groups_mandatory default_patterns
   \<and> check_text default_patterns (PStr text_scenario) =
     Inr \<lparr>has_kpi_statement = True, score = PStr [56, 53], matching_pattern = PStr pattern0,
          match_text = PStr text_scenario, year = PStr [50, 48, 50, 52]\<rparr>
   \<and> has_kpi_statement (projr (check_text default_patterns (PStr text_scenario)))
   \<and> score (projr (check_text default_patterns (PStr text_scenario))) \<noteq> PNone
   \<and> matching_pattern (projr (check_text default_patterns (PStr text_scenario))) \<noteq> PNone
   \<and> match_text (projr (check_text default_patterns (PStr text_scenario))) \<noteq> PNone"
proof -
  let ?v = "\<lparr>has_kpi_statement = True, score = PStr [56, 53], matching_pattern = PStr pattern0,
          match_text = PStr text_scenario, year = PStr [50, 48, 50, 52]\<rparr>"
  have a: "score_groups_mandatory default_patterns" by code_simp
  have b: "check_text default_patterns (PStr text_scenario) = Inr ?v" by code_simp
  from verdict_fields_together [OF b] a b show ?thesis by simp
qed

text \<open>
  C5 as stated fails for a pattern whose score group is optional: the text matches,
  \<open>has_kpi_statement\<close> is true, \<open>matching_pattern\<close> and \<open>match_text\<close> are present and the
  score is \<open>None\<close>.
\<close>

theorem optional_group_breaks_all_or_nothing:
  "check_text [pattern0, pattern_optional] (PStr text_optional) =
     Inr \<lparr>has_kpi_statement = True, score = PNone, matching_pattern = PStr pattern_optional,
          match_text = PStr text_optional, year = PNone\<rparr>
   \<and> \<not> (has_kpi_statement (projr (check_text [pattern0, pattern_optional] (PStr text_optional)))
        \<longleftrightarrow> score (projr (check_text [pattern0, pattern_optional] (PStr text_optional))) \<noteq> PNone)"
  by code_simp

section \<open>Properties of \<open>analyze_results\<close>\<close>




















section \<open>Properties of the configuration\<close>

lemma dict_get_set: "dict_get (dict_set d k v) k' = (if k' = k then Some v else dict_get d k')"
  by (induction d k v rule: dict_set.induct) (auto simp: dict_get_def)

lemma dict_set_keys:
  "map fst (dict_set d k v) = (if k \<in> fst ` set d then map fst d else map fst d @ [k])"
  by (induction d k v rule: dict_set.induct) auto

lemma dict_set_distinct: "distinct (map fst d) \<Longrightarrow> distinct (map fst (dict_set d k v))"
  by (simp add: dict_set_keys)

lemma dict_set_same: "dict_get d k = Some v \<Longrightarrow> distinct (map fst d) \<Longrightarrow> dict_set d k v = d"
  by (induction d k v rule: dict_set.induct) (auto simp: dict_get_def split: if_splits)

lemma well_formed_default: "well_formed_config default_config"
  by code_simp

lemma well_formed_set: "well_formed_config c \<Longrightarrow> well_formed_config (set_value c k v)"
  by (simp add: well_formed_config_def set_value_def dict_set_distinct dict_get_set)

lemma merge_item_other:
  "fst kv \<noteq> k \<Longrightarrow> dict_get (merge_item c kv) k = dict_get c k"
  by (auto simp: merge_item_def dict_get_set split: pyval.splits option.splits)

lemma merge_item_distinct: "distinct (map fst c) \<Longrightarrow> distinct (map fst (merge_item c kv))"
  by (auto simp: merge_item_def dict_set_distinct split: pyval.splits option.splits)

lemma merge_item_present: "dict_get c k \<noteq> None \<Longrightarrow> dict_get (merge_item c kv) k \<noteq> None"
  by (auto simp: merge_item_def dict_get_set split: pyval.splits option.splits)

lemma merge_item_replaces:
  "\<forall>dc. dict_get c k \<noteq> Some (PDict dc) \<Longrightarrow> dict_get (merge_item c (k, v)) k = Some v"
  by (auto simp: merge_item_def dict_get_set split: pyval.splits option.splits)

lemma foldl_merge_other:
  "k \<notin> fst ` set items \<Longrightarrow> dict_get (foldl merge_item c items) k = dict_get c k"
  by (induction items arbitrary: c) (auto simp: merge_item_other)

lemma foldl_merge_well_formed:
  "well_formed_config c \<Longrightarrow> well_formed_config (foldl merge_item c items)"
proof (induction items arbitrary: c)
  case Nil
  then show ?case by simp
next
  case (Cons kv items)
  from Cons.prems have "well_formed_config (merge_item c kv)"
    by (simp add: well_formed_config_def merge_item_distinct merge_item_present)
  from Cons.IH [OF this] show ?case by simp
qed

lemma foldl_merge_key:
  "distinct (map fst items) \<Longrightarrow> map_of items k = Some v \<Longrightarrow>
     \<forall>dc. dict_get c k \<noteq> Some (PDict dc) \<Longrightarrow>
     dict_get (foldl merge_item c items) k = Some v"
proof (induction items arbitrary: c)
  case Nil
  then show ?case by simp
next
  case (Cons kv items)
  obtain k' x where kv: "kv = (k', x)" by (cases kv)
  show ?case
  proof (cases "k' = k")
    case True
    with Cons.prems kv have x: "x = v" and notin: "k \<notin> fst ` set items" by auto
    from merge_item_replaces [OF Cons.prems(3), of v]
    have "dict_get (merge_item c (k, v)) k = Some v" .
    with foldl_merge_other [OF notin, of "merge_item c (k, v)"] kv True x
    show ?thesis by simp
  next
    case False
    with Cons.prems kv have d: "distinct (map fst items)" and m: "map_of items k = Some v"
      by auto
    from False kv have "dict_get (merge_item c kv) k = dict_get c k"
      by (simp add: merge_item_other)
    with Cons.prems(3) have "\<forall>dc. dict_get (merge_item c kv) k \<noteq> Some (PDict dc)" by simp
    from Cons.IH [OF d m this] show ?thesis by simp
  qed
qed

lemma default_patterns_entry:
  "dict_get default_config key_kpi_patterns = Some (PList (map PStr default_patterns))"
  by code_simp

lemma well_formed_add:
  assumes "well_formed_config c" and "add_kpi_pattern c p = Inr c'"
  shows "well_formed_config c'"
proof -
  from assms(1) obtain v where v: "dict_get c key_kpi_patterns = Some v"
    and d: "distinct (map fst c)"
    by (auto simp: well_formed_config_def)
  from assms(2) v have "c' = c \<or> (\<exists>x. c' = dict_set c key_kpi_patterns x)"
    by (auto simp: add_kpi_pattern_def Let_def split: pyval.splits if_splits)
  with assms(1) d show ?thesis
    by (auto simp: well_formed_config_def dict_set_distinct dict_get_set)
qed

lemma well_formed_load:
  assumes "well_formed_config c" and "load_config c f fs = Inr c'"
  shows "well_formed_config c'"
  using assms
  by (auto simp: load_config_def foldl_merge_well_formed
      split: option.splits file_content.splits pyval.splits)

text \<open>
  C8. Whatever else the configuration holds, \<open>add_kpi_pattern\<close> on a configuration
  whose pattern list is \<open>xs\<close> (the empty list when the key is missing) appends the
  pattern at the end if no equal string is in the list, and otherwise leaves the
  configuration as it is; the patterns that were there keep their places, and no other
  key changes.
\<close>

theorem add_kpi_pattern_appends_once:
  assumes "get_kpi_patterns config = PList xs"
  shows "\<exists>config'. add_kpi_pattern config pattern = Inr config'
     \<and> get_kpi_patterns config' =
         PList (if PStr pattern \<in> set xs then xs else xs @ [PStr pattern])
     \<and> (\<exists>ys. get_kpi_patterns config' = PList (xs @ ys))
     \<and> (PStr pattern \<in> set xs \<longrightarrow> config' = config)
     \<and> (\<forall>k. k \<noteq> key_kpi_patterns \<longrightarrow> dict_get config' k = dict_get config k)"
proof (cases "dict_get config key_kpi_patterns")
  case None
  with assms have xs: "xs = []" by (simp add: get_kpi_patterns_def)
  let ?c1 = "dict_set config key_kpi_patterns (PList [])"
  let ?c2 = "dict_set ?c1 key_kpi_patterns (PList [PStr pattern])"
  from None have "add_kpi_pattern config pattern = Inr ?c2"
    by (simp add: add_kpi_pattern_def Let_def dict_get_set)
  moreover have "get_kpi_patterns ?c2 = PList [PStr pattern]"
    by (simp add: get_kpi_patterns_def dict_get_set)
  moreover have "\<forall>k. k \<noteq> key_kpi_patterns \<longrightarrow> dict_get ?c2 k = dict_get config k"
    by (simp add: dict_get_set)
  ultimately show ?thesis using xs by simp
next
  case (Some v)
  with assms have v: "dict_get config key_kpi_patterns = Some (PList xs)"
    by (simp add: get_kpi_patterns_def)
  show ?thesis
  proof (cases "PStr pattern \<in> set xs")
    case True
    with v have "add_kpi_pattern config pattern = Inr config"
      by (simp add: add_kpi_pattern_def Let_def)
    with True assms show ?thesis by simp
  next
    case False
    let ?c2 = "dict_set config key_kpi_patterns (PList (xs @ [PStr pattern]))"
    from False v have "add_kpi_pattern config pattern = Inr ?c2"
      by (simp add: add_kpi_pattern_def Let_def)
    moreover have "get_kpi_patterns ?c2 = PList (xs @ [PStr pattern])"
      by (simp add: get_kpi_patterns_def dict_get_set)
    moreover have "\<forall>k. k \<noteq> key_kpi_patterns \<longrightarrow> dict_get ?c2 k = dict_get config k"
      by (simp add: dict_get_set)
    ultimately show ?thesis using False by simp
  qed
qed

theorem add_kpi_pattern_appends_once_witness:
  "get_kpi_patterns default_config = PList (map PStr default_patterns)
   \<and> get_kpi_patterns (projr (add_kpi_pattern default_config pattern_new))
       = PList (map PStr default_patterns @ [PStr pattern_new])
   \<and> add_kpi_pattern default_config pattern0 = Inr default_config
   \<and> get_kpi_patterns (projr (add_kpi_pattern [] pattern_new)) = PList [PStr pattern_new]"
proof -
  have a: "get_kpi_patterns default_config = PList (map PStr default_patterns)" by code_simp
  have b: "PStr pattern_new \<notin> set (map PStr default_patterns)" by code_simp
  have c: "PStr pattern0 \<in> set (map PStr default_patterns)" by code_simp
  have d: "get_kpi_patterns [] = PList []" by code_simp
  from add_kpi_pattern_appends_once [OF a, of pattern_new]
    add_kpi_pattern_appends_once [OF a, of pattern0]
    add_kpi_pattern_appends_once [OF d, of pattern_new] a b c
  show ?thesis by auto
qed

text \<open>
  C9. A configuration that is saved with \<open>save_config\<close> (the file is written) and
  loaded with \<open>load_config\<close> into a fresh \<open>Config\<close>, or read by \<open>Config(config_file)\<close>,
  gives the same \<open>kpi_patterns\<close>: the same elements in the same order.
\<close>

theorem kpi_patterns_survive_save_and_load:
  assumes "well_formed_config config"
  shows "\<exists>loaded. load_config default_config f (save_config config f True fs) = Inr loaded
     \<and> get_kpi_patterns loaded = get_kpi_patterns config
     \<and> (f \<noteq> [] \<longrightarrow> new_config (Some f) (save_config config f True fs) = Inr loaded)"
proof -
  let ?loaded = "foldl merge_item default_config config"
  from assms obtain v where v: "dict_get config key_kpi_patterns = Some v"
    and d: "distinct (map fst config)"
    by (auto simp: well_formed_config_def)
  have l: "load_config default_config f (save_config config f True fs) = Inr ?loaded"
    by (simp add: load_config_def save_config_def)
  have "\<forall>dc. dict_get default_config key_kpi_patterns \<noteq> Some (PDict dc)"
    by (simp add: default_patterns_entry)
  from foldl_merge_key [OF d _ this, of v] v
  have "dict_get ?loaded key_kpi_patterns = Some v" by (simp add: dict_get_def)
  with v have g: "get_kpi_patterns ?loaded = get_kpi_patterns config"
    by (simp add: get_kpi_patterns_def)
  have "new_config (Some f) (save_config config f True fs) = Inr ?loaded" if "f \<noteq> []"
    using that l by (simp add: new_config_def save_config_def)
  with l g show ?thesis by simp
qed

theorem kpi_patterns_survive_save_and_load_witness:
  "well_formed_config (projr (add_kpi_pattern default_config pattern_new))
   \<and> get_kpi_patterns (projr (add_kpi_pattern default_config pattern_new))
       = PList (map PStr (default_patterns @ [pattern_new]))
   \<and> get_kpi_patterns (projr (load_config default_config config_path
        (save_config (projr (add_kpi_pattern default_config pattern_new)) config_path True no_files)))
       = PList (map PStr (default_patterns @ [pattern_new]))"
proof -
  let ?c = "projr (add_kpi_pattern default_config pattern_new)"
  have a: "well_formed_config ?c" by code_simp
  have b: "get_kpi_patterns ?c = PList (map PStr (default_patterns @ [pattern_new]))"
    by code_simp
  from kpi_patterns_survive_save_and_load [OF a, of config_path no_files] a b
  show ?thesis by auto
qed

end
